theory Spec2Isabelle
  imports Complex_Main "HOL-Library.Multiset"
begin

section \<open>Python dictionaries\<close>

text \<open>
  A Python \<open>dict\<close> keeps its keys in insertion order, so it is modelled as an
  association list with at most one pair per key: assigning to a key that is present
  replaces the value where it stands, assigning to a new key appends the pair.
\<close>

type_synonym ('k, 'v) dict = "('k \<times> 'v) list"

fun dict_set :: "('k, 'v) dict \<Rightarrow> 'k \<Rightarrow> 'v \<Rightarrow> ('k, 'v) dict" where
  "dict_set [] k v = [(k, v)]"
| "dict_set ((k', v') # d) k v = (if k' = k then (k, v) # d else (k', v') # dict_set d k v)"

text \<open>\<open>d.get(k, default)\<close>\<close>

definition dict_get :: "('k, 'v) dict \<Rightarrow> 'k \<Rightarrow> 'v \<Rightarrow> 'v" where
  "dict_get d k dflt = (case map_of d k of None \<Rightarrow> dflt | Some v \<Rightarrow> v)"


section \<open>knowledge\_graph.py: the graph and its indexes\<close>

datatype RelationType =
  OWNS | DEPENDS_ON | DELAYED_BY | AFFECTS | APPROVED_BY | ALLOCATED_TO
  | REPORTS_TO | MEMBER_OF | WORKS_ON

text \<open>Points in time (\<open>datetime\<close>) are integers; property values are strings.\<close>

record Entity =
  entity_id :: string
  entity_type :: string
  name :: string
  properties :: "(string, string) dict"
  created_at :: "int option"
  updated_at :: "int option"

record Relationship =
  rel_id :: string
  source_id :: string
  target_id :: string
  rel_type :: RelationType
  rel_properties :: "(string, string) dict"
  valid_from :: "int option"
  valid_to :: "int option"

text \<open>
  The fields of \<open>KnowledgeGraph\<close>. The three indexes are \<open>defaultdict(list)\<close>:
  reading a missing key for an append starts from the empty list.
\<close>

record KnowledgeGraph =
  entities :: "(string, Entity) dict"
  relationships :: "Relationship list"
  outgoing :: "(string, Relationship list) dict"
  incoming :: "(string, Relationship list) dict"
  by_type :: "(string, Entity list) dict"

definition KnowledgeGraph_init :: KnowledgeGraph where
  "KnowledgeGraph_init =
     \<lparr>entities = [], relationships = [], outgoing = [], incoming = [], by_type = []\<rparr>"

definition add_entity :: "KnowledgeGraph \<Rightarrow> Entity \<Rightarrow> KnowledgeGraph" where
  "add_entity g e =
     g\<lparr>entities := dict_set (entities g) (entity_id e) e,
       by_type := dict_set (by_type g) (entity_type e)
                    (dict_get (by_type g) (entity_type e) [] @ [e])\<rparr>"

definition add_relationship :: "KnowledgeGraph \<Rightarrow> Relationship \<Rightarrow> KnowledgeGraph" where
  "add_relationship g rel =
     g\<lparr>relationships := relationships g @ [rel],
       outgoing := dict_set (outgoing g) (source_id rel)
                     (dict_get (outgoing g) (source_id rel) [] @ [rel]),
       incoming := dict_set (incoming g) (target_id rel)
                     (dict_get (incoming g) (target_id rel) [] @ [rel])\<rparr>"

text \<open>
  \<open>get_outgoing\<close> and \<open>get_incoming\<close>: the optional \<open>rel_type\<close> is tested for
  truth, and every member of the enumeration is true, so the filter runs exactly when a
  type is given.
\<close>

definition get_outgoing :: "KnowledgeGraph \<Rightarrow> string \<Rightarrow> RelationType option \<Rightarrow> Relationship list" where
  "get_outgoing g eid ty =
     (let rels = dict_get (outgoing g) eid []
      in case ty of None \<Rightarrow> rels | Some t \<Rightarrow> filter (\<lambda>r. rel_type r = t) rels)"

definition get_incoming :: "KnowledgeGraph \<Rightarrow> string \<Rightarrow> RelationType option \<Rightarrow> Relationship list" where
  "get_incoming g eid ty =
     (let rels = dict_get (incoming g) eid []
      in case ty of None \<Rightarrow> rels | Some t \<Rightarrow> filter (\<lambda>r. rel_type r = t) rels)"

text \<open>
  Every graph is made by \<open>KnowledgeGraph()\<close> followed by calls of \<open>add_entity\<close> and
  \<open>add_relationship\<close>; a call sequence is a list of operations.
\<close>

datatype kg_op = Add_entity Entity | Add_relationship Relationship

fun apply_op :: "KnowledgeGraph \<Rightarrow> kg_op \<Rightarrow> KnowledgeGraph" where
  "apply_op g (Add_entity e) = add_entity g e"
| "apply_op g (Add_relationship r) = add_relationship g r"

definition build :: "kg_op list \<Rightarrow> KnowledgeGraph" where
  "build ops = foldl apply_op KnowledgeGraph_init ops"

section \<open>knowledge\_graph.py: pattern traversal\<close>

text \<open>
  \<open>traverse\<close> follows a pattern of relationship types from a start entity. The loop
  over the outgoing relationships appends to \<open>paths\<close>; here it is the concatenation of
  what each relationship contributes. \<open>max_depth\<close> is passed down, one less per hop,
  and read nowhere.
\<close>

fun traverse :: "KnowledgeGraph \<Rightarrow> string \<Rightarrow> RelationType list \<Rightarrow> int \<Rightarrow> string list list" where
  "traverse g start_id [] max_depth = [[start_id]]"
| "traverse g start_id (current_rel_type # remaining_pattern) max_depth =
     concat (map (\<lambda>rel.
         if remaining_pattern \<noteq> []
         then map (\<lambda>sub_path. start_id # sub_path)
                (traverse g (target_id rel) remaining_pattern (max_depth - 1))
         else [[start_id, target_id rel]])
       (get_outgoing g start_id (Some current_rel_type)))"

section \<open>knowledge\_graph.py: neighbourhood expansion\<close>

text \<open>
  \<open>find_all_connected\<close> keeps two Python sets, \<open>visited\<close> and the frontier. The
  frontier is iterated over, so it is a list without duplicates (\<open>set_add\<close> is
  \<open>set.add\<close>), here in insertion order; what a round computes depends only on the
  set of the frontier (\<open>hop_eq\<close> below), so the order Python iterates in does not
  matter. \<open>visited\<close> is only tested and extended, so it is a set. One run of the
  outer loop body is \<open>hop\<close>; \<open>range(max_hops)\<close> runs it \<open>max_hops\<close> times, and not
  at all when \<open>max_hops\<close> is negative.
\<close>

definition set_add :: "'a list \<Rightarrow> 'a \<Rightarrow> 'a list" where
  "set_add xs x = (if x \<in> set xs then xs else xs @ [x])"

definition visit :: "string \<Rightarrow> string set \<times> string list \<Rightarrow> string set \<times> string list" where
  "visit x st =
     (case st of (visited, new_frontier) \<Rightarrow>
        if x \<notin> visited then (insert x visited, set_add new_frontier x)
        else (visited, new_frontier))"

definition expand_entity ::
  "KnowledgeGraph \<Rightarrow> string \<Rightarrow> string set \<times> string list \<Rightarrow> string set \<times> string list" where
  "expand_entity g eid st =
     fold (\<lambda>rel. visit (source_id rel)) (get_incoming g eid None)
       (fold (\<lambda>rel. visit (target_id rel)) (get_outgoing g eid None) st)"

definition hop :: "KnowledgeGraph \<Rightarrow> string set \<times> string list \<Rightarrow> string set \<times> string list" where
  "hop g st = (case st of (visited, frontier) \<Rightarrow> fold (expand_entity g) frontier (visited, []))"

definition find_all_connected :: "KnowledgeGraph \<Rightarrow> string \<Rightarrow> int \<Rightarrow> string set" where
  "find_all_connected g start_id max_hops =
     fst ((hop g ^^ nat max_hops) ({start_id}, [start_id]))"

section \<open>knowledge\_graph.py: shortest path\<close>

text \<open>
  \<open>shortest_path\<close> is a breadth-first search over a queue of (entity, path) pairs.
  \<open>scan_rels\<close> is the inner \<open>for\<close> loop over the outgoing relationships of the
  entity taken from the queue: it returns at once (\<open>Inl\<close>) when a relationship reaches
  the target, and otherwise marks and enqueues every target not visited yet. \<open>bfs\<close> is
  the \<open>while queue\<close> loop; it ends because every round either shortens the queue or
  moves entities of the finite set \<open>all_targets\<close> into \<open>visited\<close>.
\<close>

type_synonym queue = "(string \<times> string list) list"

fun scan_rels ::
  "string \<Rightarrow> string list \<Rightarrow> Relationship list \<Rightarrow> string set \<Rightarrow> queue \<Rightarrow>
   string list + (string set \<times> queue)" where
  "scan_rels target path [] visited queue = Inr (visited, queue)"
| "scan_rels target path (rel # rels) visited queue =
     (if target_id rel = target then Inl (path @ [target])
      else if target_id rel \<notin> visited
      then scan_rels target path rels (insert (target_id rel) visited)
             (queue @ [(target_id rel, path @ [target_id rel])])
      else scan_rels target path rels visited queue)"

definition all_targets :: "KnowledgeGraph \<Rightarrow> string set" where
  "all_targets g = (\<Union>rels\<in>snd ` set (outgoing g). target_id ` set rels)"

lemma finite_all_targets: "finite (all_targets g)"
  by (simp add: all_targets_def)

lemma get_outgoing_targets: "target_id ` set (get_outgoing g u None) \<subseteq> all_targets g"
proof (cases "map_of (outgoing g) u")
  case None
  then show ?thesis by (simp add: get_outgoing_def dict_get_def)
next
  case (Some rels)
  then have "(u, rels) \<in> set (outgoing g)" by (rule map_of_SomeD)
  then have "rels \<in> snd ` set (outgoing g)" by force
  with Some show ?thesis by (auto simp: get_outgoing_def dict_get_def all_targets_def)
qed

lemma scan_rels_measure:
  "scan_rels t p rels V Q = Inr (V', Q') \<Longrightarrow> target_id ` set rels \<subseteq> T \<Longrightarrow> finite T \<Longrightarrow>
   card (T - V') + length Q' = card (T - V) + length Q"
proof (induction rels arbitrary: V Q)
  case Nil
  then show ?case by simp
next
  case (Cons r rels)
  show ?case
  proof (cases "target_id r = t")
    case True
    with Cons.prems show ?thesis by simp
  next
    case nt: False
    show ?thesis
    proof (cases "target_id r \<in> V")
      case True
      with nt Cons show ?thesis by simp
    next
      case False
      let ?x = "target_id r"
      have "scan_rels t p rels (insert ?x V) (Q @ [(?x, p @ [?x])]) = Inr (V', Q')"
        using Cons.prems(1) nt False by simp
      then have "card (T - V') + length Q' =
          card (T - insert ?x V) + length (Q @ [(?x, p @ [?x])])"
        using Cons.prems(2,3) by (intro Cons.IH) auto
      moreover have "?x \<in> T - V" using Cons.prems(2) False by auto
      then have "card (T - insert ?x V) + 1 = card (T - V)"
        using Cons.prems(3)
        by (metis Diff_insert One_nat_def Suc_pred add.right_neutral add_Suc_right card_Diff_singleton
            card_gt_0_iff empty_iff finite_Diff)
      ultimately show ?thesis by simp
    qed
  qed
qed

function bfs :: "KnowledgeGraph \<Rightarrow> string \<Rightarrow> int \<Rightarrow> string set \<Rightarrow> queue \<Rightarrow> string list option" where
  "bfs g target max_depth visited [] = None"
| "bfs g target max_depth visited ((current_id, path) # queue) =
     (if int (length path) > max_depth then bfs g target max_depth visited queue
      else (case scan_rels target path (get_outgoing g current_id None) visited queue of
              Inl found \<Rightarrow> Some found
            | Inr (visited', queue') \<Rightarrow> bfs g target max_depth visited' queue'))"
  by pat_completeness auto
termination
proof (relation "measure (\<lambda>(g, target, max_depth, visited, queue).
    card (all_targets g - visited) + length queue)", goal_cases)
  case 1
  show ?case by simp
next
  case (2 g target max_depth visited current_id path queue)
  show ?case by simp
next
  case (3 g target max_depth visited current_id path queue x2 x y)
  then have "scan_rels target path (get_outgoing g current_id None) visited queue = Inr (x, y)"
    by simp
  from scan_rels_measure [OF this get_outgoing_targets finite_all_targets]
  show ?case by simp
qed

definition shortest_path :: "KnowledgeGraph \<Rightarrow> string \<Rightarrow> string \<Rightarrow> int \<Rightarrow> string list option" where
  "shortest_path g source target max_depth =
     (if source = target then Some [source]
      else bfs g target max_depth {source} [(source, [source])])"

section \<open>vector\_search.py\<close>

text \<open>
  Exceptions are values: a function that can raise returns \<open>py_error + 'a\<close>, with
  \<open>Inl\<close> the exception. Python floats are modelled as real numbers, so rounding,
  overflow and NaN are outside the model; a division is written with its
  \<open>ZeroDivisionError\<close>. Metadata values are strings.
\<close>

datatype py_error = ValueError | ZeroDivisionError | KeyError | ConnectionError | RuntimeError


record Document =
  doc_id :: string
  content :: string
  embedding :: "real list"
  metadata :: "(string, string) dict"
  context_prefix :: string

record SearchResult =
  document :: Document
  similarity_score :: real
  rank :: int












section \<open>hybrid\_retrieval.py: Reciprocal Rank Fusion\<close>

datatype MemoryTier = EPISODIC | SEMANTIC | PROCEDURAL

record MemoryItem =
  item_id :: string
  tier :: MemoryTier
  item_content :: string
  item_metadata :: "(string, string) dict"
  item_embedding :: "real list"
  timestamp :: "int option"
  user_id :: "string option"
  session_id :: "string option"
  success_rate :: "real option"
  use_count :: int

record RetrievalResult =
  item :: MemoryItem
  score :: real
  source :: string
  result_rank :: int






section \<open>Simulated failures in the demonstration files\<close>

text \<open>
  Strings are ASCII: \<open>pat in s\<close> is \<open>contains s pat\<close>, and \<open>str.lower\<close> maps the
  capital letters to the small ones.
\<close>

fun starts_with :: "string \<Rightarrow> string \<Rightarrow> bool" where
  "starts_with s [] = True"
| "starts_with [] (c # pat) = False"
| "starts_with (d # s) (c # pat) = (d = c \<and> starts_with s pat)"

fun contains :: "string \<Rightarrow> string \<Rightarrow> bool" where
  "contains [] pat = (pat = [])"
| "contains (d # s) pat = (starts_with (d # s) pat \<or> contains s pat)"

definition lower_char :: "char \<Rightarrow> char" where
  "lower_char c =
     (case map_of (zip ''ABCDEFGHIJKLMNOPQRSTUVWXYZ'' ''abcdefghijklmnopqrstuvwxyz'') c of
        None \<Rightarrow> c
      | Some l \<Rightarrow> l)"

definition lower :: "string \<Rightarrow> string" where
  "lower s = map lower_char s"

text \<open>
  adapter\_pattern.py (the circuit breaker file), \<open>ERPSoapAdapter.call_legacy_system\<close>.
  The value \<open>random.random()\<close> draws is the argument \<open>sample\<close>; the delay is left
  out. The response is the record of the first stock-keeping unit whose key occurs in
  the request, or the not-found answer.
\<close>

record inventory_item =
  item_name :: string
  quantity :: int
  warehouse :: string

datatype legacy_response =
  Inventory_found string string int string string
  | Sku_not_found

fun find_sku :: "(string, inventory_item) dict \<Rightarrow> string \<Rightarrow> legacy_response" where
  "find_sku [] legacy_request = Sku_not_found"
| "find_sku ((sku, data) # inventory) legacy_request =
     (if contains legacy_request sku
      then Inventory_found sku (item_name data) (quantity data) (warehouse data) ''legacy-erp''
      else find_sku inventory legacy_request)"

definition call_legacy_system ::
  "real \<Rightarrow> (string, inventory_item) dict \<Rightarrow> string \<Rightarrow> py_error + legacy_response" where
  "call_legacy_system sample inventory legacy_request =
     (if sample < 0.1 then Inl ConnectionError
      else Inr (find_sku inventory legacy_request))"

definition erp_inventory :: "(string, inventory_item) dict" where
  "erp_inventory =
     [(''SKU-001'', \<lparr>item_name = ''Widget Pro'', quantity = 150, warehouse = ''WH-A''\<rparr>),
      (''SKU-002'', \<lparr>item_name = ''Gadget Plus'', quantity = 75, warehouse = ''WH-B''\<rparr>)]"

text \<open>
  checkpointing.py, \<open>simulate_step\<close>: the crash is asked for by the caller through
  \<open>fail_at\<close>. The step results are dictionaries of Python values.
\<close>

datatype pyval = Str string | Bool bool | Str_list "string list" | Dict "(string \<times> pyval) list"

definition simulate_step ::
  "string \<Rightarrow> (string, pyval) dict \<Rightarrow> string option \<Rightarrow> py_error + (string, pyval) dict" where
  "simulate_step step data fail_at =
     (if Some step = fail_at then Inl RuntimeError
      else if step = ''extract''
        then Inr [(''extracted_fields'', Str_list [''title'', ''date'', ''amount''])]
      else if step = ''transform''
        then Inr [(''transformed'', Bool True), (''format'', Str ''normalized'')]
      else if step = ''validate''
        then Inr [(''valid'', Bool True), (''errors'', Str_list [])]
      else if step = ''enrich''
        then Inr [(''enriched'', Bool True),
                  (''external_data'', Dict [(''category'', Str ''invoice'')])]
      else if step = ''complete''
        then Inr [(''status'', Str ''completed'')]
      else Inr [])"

text \<open>basic\_fsm.py, \<open>process_document\<close> and \<open>validate_document\<close>.\<close>

definition process_document :: "string \<Rightarrow> bool \<times> string option" where
  "process_document content_text =
     (if contains (lower content_text) ''error''
      then (False, Some ''Processing failed: invalid content'')
      else (True, None))"

definition validate_document :: "string \<Rightarrow> bool" where
  "validate_document content_text \<longleftrightarrow> length content_text > 10"

text \<open>
  guardrails.py, \<open>HumanInTheLoop.requires_approval\<close>. The reason is the description
  of a high-risk operation or the threshold message, which carries the amount.
\<close>

datatype approval_reason = Operation_risk string | Exceeds_threshold int | No_reason

definition high_risk_operations :: "(string, string) dict" where
  "high_risk_operations =
     [(''delete_customer'', ''Permanently deletes customer record''),
      (''process_refund'', ''Processes financial refund''),
      (''modify_permissions'', ''Changes access permissions''),
      (''deploy_production'', ''Deploys to production environment'')]"

definition requires_approval :: "string \<Rightarrow> (string, int) dict \<Rightarrow> bool \<times> approval_reason" where
  "requires_approval operation ctx =
     (case map_of high_risk_operations operation of
        Some description \<Rightarrow> (True, Operation_risk description)
      | None \<Rightarrow>
          (let amount = dict_get ctx ''amount'' 0
           in if amount > 1000 then (True, Exceeds_threshold amount) else (False, No_reason)))"

section \<open>Concrete inputs\<close>

text \<open>A small graph for concrete runs: \<open>a \<rightarrow> b \<rightarrow> c\<close> and the shortcut \<open>a \<rightarrow> c\<close>.\<close>

definition ex_rel :: "string \<Rightarrow> string \<Rightarrow> string \<Rightarrow> RelationType \<Rightarrow> Relationship" where
  "ex_rel i s t ty = \<lparr>rel_id = i, source_id = s, target_id = t, rel_type = ty,
     rel_properties = [], valid_from = None, valid_to = None\<rparr>"

definition ex_ops :: "kg_op list" where
  "ex_ops = [Add_relationship (ex_rel ''r1'' ''a'' ''b'' OWNS),
             Add_relationship (ex_rel ''r2'' ''b'' ''c'' AFFECTS),
             Add_relationship (ex_rel ''r3'' ''a'' ''c'' DEPENDS_ON)]"






section \<open>Specifications\<close>

text \<open>The relationships a call sequence adds, in call order.\<close>

fun added :: "kg_op list \<Rightarrow> Relationship list" where
  "added [] = []"
| "added (Add_entity e # ops) = added ops"
| "added (Add_relationship r # ops) = r # added ops"

text \<open>
  Index consistency: for every id, the outgoing index lists exactly the relationships
  of the relationship list that leave it, and the incoming index exactly those that
  enter it, both in the order of the list.
\<close>

definition index_ok :: "KnowledgeGraph \<Rightarrow> bool" where
  "index_ok g \<longleftrightarrow>
     (\<forall>i. dict_get (outgoing g) i [] = filter (\<lambda>r. source_id r = i) (relationships g)) \<and>
     (\<forall>i. dict_get (incoming g) i [] = filter (\<lambda>r. target_id r = i) (relationships g))"

text \<open>
  A sequence of relationships \<open>rs\<close> matches the pattern from
  node \<open>u\<close> when the first leaves \<open>u\<close>, each next one leaves the target of the one
  before, and the types are those of the pattern in order; \<open>nodes\<close> is the node sequence
  it visits.
\<close>

fun matches :: "string \<Rightarrow> RelationType list \<Rightarrow> Relationship list \<Rightarrow> bool" where
  "matches u [] [] = True"
| "matches u (t # ts) (r # rs) = (source_id r = u \<and> rel_type r = t \<and> matches (target_id r) ts rs)"
| "matches u [] (r # rs) = False"
| "matches u (t # ts) [] = False"

definition nodes :: "string \<Rightarrow> Relationship list \<Rightarrow> string list" where
  "nodes u rs = u # map target_id rs"

text \<open>
  \<open>links\<close> are the directed edges the graph's relationships
  give; \<open>neighbours\<close> are the entities one relationship away in either direction as
  the two indexes give them.
\<close>

definition links :: "KnowledgeGraph \<Rightarrow> (string \<times> string) set" where
  "links g = (\<lambda>r. (source_id r, target_id r)) ` set (relationships g)"

definition neighbours :: "KnowledgeGraph \<Rightarrow> string \<Rightarrow> string set" where
  "neighbours g u =
     target_id ` set (get_outgoing g u None) \<union> source_id ` set (get_incoming g u None)"

definition adjacent :: "KnowledgeGraph \<Rightarrow> (string \<times> string) set" where
  "adjacent g = {(u, v). v \<in> neighbours g u}"

definition reach_within :: "KnowledgeGraph \<Rightarrow> string \<Rightarrow> nat \<Rightarrow> string set" where
  "reach_within g s k = {v. \<exists>n\<le>k. (s, v) \<in> adjacent g ^^ n}"

text \<open>
  For the search: \<open>succs\<close> are the entities one outgoing
  relationship away, a walk is a non-empty node sequence along them, and a goal walk
  leads from the source to the target.
\<close>

definition succs :: "KnowledgeGraph \<Rightarrow> string \<Rightarrow> string set" where
  "succs g u = target_id ` set (get_outgoing g u None)"

definition is_walk :: "KnowledgeGraph \<Rightarrow> string list \<Rightarrow> bool" where
  "is_walk g p \<longleftrightarrow> p \<noteq> [] \<and> successively (\<lambda>u v. v \<in> succs g u) p"

definition goal_walk :: "KnowledgeGraph \<Rightarrow> string \<Rightarrow> string \<Rightarrow> string list \<Rightarrow> bool" where
  "goal_walk g s t q \<longleftrightarrow> is_walk g q \<and> hd q = s \<and> last q = t"

text \<open>
  The loop invariant. The target is never visited; every queue entry holds a walk from
  the source to its entity, which is visited; the path lengths in the queue are sorted
  and differ by at most one; and every walk from source to target within the depth
  bound crosses the queue: the last visited node on it, at some index \<open>i\<close>, is in the
  queue with a path of at most \<open>i\<close> hops.
\<close>

definition bfs_inv ::
  "KnowledgeGraph \<Rightarrow> string \<Rightarrow> string \<Rightarrow> int \<Rightarrow> string set \<Rightarrow> queue \<Rightarrow> bool" where
  "bfs_inv g s t D V Q \<longleftrightarrow>
     t \<notin> V \<and>
     (\<forall>e\<in>set Q. is_walk g (snd e) \<and> hd (snd e) = s \<and> last (snd e) = fst e \<and> fst e \<in> V) \<and>
     sorted (map (length \<circ> snd) Q) \<and>
     (\<forall>e\<in>set Q. length (snd e) \<le> length (snd (hd Q)) + 1) \<and>
     (\<forall>q. goal_walk g s t q \<and> int (length q) \<le> D + 1 \<longrightarrow>
        (\<exists>i<length q. \<exists>p. (q ! i, p) \<in> set Q \<and> length p \<le> i + 1 \<and>
           (\<forall>j. i < j \<and> j < length q \<longrightarrow> q ! j \<notin> V)))"

definition bfs_ok :: "KnowledgeGraph \<Rightarrow> string \<Rightarrow> string \<Rightarrow> int \<Rightarrow> string list option \<Rightarrow> bool" where
  "bfs_ok g s t D res =
     (case res of
        None \<Rightarrow> \<not> (\<exists>q. goal_walk g s t q \<and> int (length q) \<le> D + 1)
      | Some r \<Rightarrow> goal_walk g s t r \<and> int (length r) \<le> D + 1 \<and>
          (\<forall>q. goal_walk g s t q \<longrightarrow> length r \<le> length q))"

text \<open>
  For a graph built by calls, the walks are the directed paths along the relationships:
  \<open>directed_path g s t p\<close> says that \<open>p\<close> leads from \<open>s\<close> to \<open>t\<close> along
  \<open>links g\<close>; \<open>hops\<close> counts its relationships, and \<open>hop_distance\<close> is the least
  number of hops of any directed path from \<open>s\<close> to \<open>t\<close>.
\<close>

definition directed_path :: "KnowledgeGraph \<Rightarrow> string \<Rightarrow> string \<Rightarrow> string list \<Rightarrow> bool" where
  "directed_path g s t p \<longleftrightarrow>
     p \<noteq> [] \<and> hd p = s \<and> last p = t \<and> successively (\<lambda>u v. (u, v) \<in> links g) p"

definition hops :: "string list \<Rightarrow> nat" where
  "hops p = length p - 1"

definition hop_distance :: "KnowledgeGraph \<Rightarrow> string \<Rightarrow> string \<Rightarrow> nat" where
  "hop_distance g s t = (LEAST n. \<exists>p. directed_path g s t p \<and> hops p = n)"



text \<open>The item ids of a result list, in order, and the item ids of all input lists.\<close>

definition result_ids :: "RetrievalResult list \<Rightarrow> string list" where
  "result_ids rs = map (\<lambda>r. item_id (item r)) rs"







section \<open>Index consistency\<close>

lemma map_of_dict_set: "map_of (dict_set d k v) = (map_of d)(k \<mapsto> v)"
  by (induction d k v rule: dict_set.induct) (auto simp: fun_eq_iff)

lemma dict_get_dict_set:
  "dict_get (dict_set d k v) k' dflt = (if k' = k then v else dict_get d k' dflt)"
  by (simp add: dict_get_def map_of_dict_set)

lemma index_ok_init: "index_ok KnowledgeGraph_init"
  by (simp add: index_ok_def KnowledgeGraph_init_def dict_get_def)

lemma index_ok_add_entity: "index_ok g \<Longrightarrow> index_ok (add_entity g e)"
  by (simp add: index_ok_def add_entity_def)

lemma index_ok_add_relationship: "index_ok g \<Longrightarrow> index_ok (add_relationship g r)"
  by (simp add: index_ok_def add_relationship_def dict_get_dict_set)

lemma index_ok_apply_op: "index_ok g \<Longrightarrow> index_ok (apply_op g x)"
  by (cases x) (simp_all add: index_ok_add_entity index_ok_add_relationship)

lemma index_ok_foldl: "index_ok g \<Longrightarrow> index_ok (foldl apply_op g ops)"
  by (induction ops arbitrary: g) (simp_all add: index_ok_apply_op)

lemma index_ok_build: "index_ok (build ops)"
  by (simp add: build_def index_ok_foldl index_ok_init)

lemma relationships_add_entity [simp]: "relationships (add_entity g e) = relationships g"
  by (simp add: add_entity_def)

lemma relationships_add_relationship [simp]:
  "relationships (add_relationship g r) = relationships g @ [r]"
  by (simp add: add_relationship_def)

lemma relationships_foldl:
  "relationships (foldl apply_op g ops) = relationships g @ added ops"
proof (induction ops arbitrary: g)
  case Nil
  show ?case by simp
next
  case (Cons x ops)
  show ?case by (cases x) (simp_all add: Cons.IH)
qed

lemma relationships_build: "relationships (build ops) = added ops"
  by (simp add: build_def relationships_foldl KnowledgeGraph_init_def)

lemma get_outgoing_build:
  "get_outgoing (build ops) i None = filter (\<lambda>r. source_id r = i) (added ops)"
  using index_ok_build [of ops]
  by (simp add: get_outgoing_def index_ok_def relationships_build)

lemma get_incoming_build:
  "get_incoming (build ops) i None = filter (\<lambda>r. target_id r = i) (added ops)"
  using index_ok_build [of ops]
  by (simp add: get_incoming_def index_ok_def relationships_build)

lemma get_outgoing_Some:
  "get_outgoing g i (Some t) = filter (\<lambda>r. rel_type r = t) (get_outgoing g i None)"
  by (simp add: get_outgoing_def)

lemma get_incoming_Some:
  "get_incoming g i (Some t) = filter (\<lambda>r. rel_type r = t) (get_incoming g i None)"
  by (simp add: get_incoming_def)

text \<open>
  C10. After any sequence of \<open>add_entity\<close> and \<open>add_relationship\<close> calls, for every
  entity id, \<open>get_outgoing\<close> without a type filter returns exactly the relationships
  added with that id as \<open>source_id\<close>, in insertion order, and \<open>get_incoming\<close> exactly
  those added with that id as \<open>target_id\<close>, in insertion order; with a \<open>rel_type\<close>
  filter each returns the sublist of those relationships that have the type.
\<close>

theorem index_consistency:
  "get_outgoing (build ops) i None = filter (\<lambda>r. source_id r = i) (added ops) \<and>
   get_incoming (build ops) i None = filter (\<lambda>r. target_id r = i) (added ops) \<and>
   get_outgoing (build ops) i (Some t) =
     filter (\<lambda>r. rel_type r = t) (filter (\<lambda>r. source_id r = i) (added ops)) \<and>
   get_incoming (build ops) i (Some t) =
     filter (\<lambda>r. rel_type r = t) (filter (\<lambda>r. target_id r = i) (added ops))"
  by (simp only: get_outgoing_Some get_incoming_Some get_outgoing_build get_incoming_build)

section \<open>Pattern traversal\<close>

lemma traverse_Cons:
  "traverse g s (t # ts) d =
     concat (map (\<lambda>rel. map (Cons s) (traverse g (target_id rel) ts (d - 1)))
       (get_outgoing g s (Some t)))"
  by (cases ts) simp_all

lemma mset_concat_map_Cons:
  "mset (concat (map (\<lambda>a. g a # h a) xs)) = image_mset g (mset xs) + mset (concat (map h xs))"
  by (induction xs) simp_all

lemma mset_concat_swap:
  "mset (concat (map (\<lambda>b. map (\<lambda>a. f a b) xs) ys)) =
   mset (concat (map (\<lambda>a. map (\<lambda>b. f a b) ys) xs))"
proof (induction ys)
  case Nil
  show ?case by (induction xs) simp_all
next
  case (Cons b ys)
  show ?case by (simp add: Cons.IH mset_concat_map_Cons)
qed

lemma mset_n_lists_Suc:
  "mset (List.n_lists (Suc n) xs) = mset (concat (map (\<lambda>y. map (Cons y) (List.n_lists n xs)) xs))"
  by (simp add: mset_concat_swap [where f = Cons])

lemma mset_concat_cong:
  "(\<And>x. x \<in> set xs \<Longrightarrow> mset (f x) = mset (g x)) \<Longrightarrow>
   mset (concat (map f xs)) = mset (concat (map g xs))"
  by (induction xs) simp_all

lemma concat_map_filter:
  "concat (map f (filter P xs)) = concat (map (\<lambda>x. if P x then f x else []) xs)"
  by (induction xs) simp_all

lemma filter_concat_map: "filter P (concat (map f xs)) = concat (map (\<lambda>x. filter P (f x)) xs)"
  by (induction xs) simp_all

lemma map_concat_map: "map h (concat (map f xs)) = concat (map (\<lambda>x. map h (f x)) xs)"
  by (induction xs) simp_all

lemma filter_matches_Cons:
  "filter (matches s (t # ts)) (map (Cons r) L) =
     (if source_id r = s \<and> rel_type r = t
      then map (Cons r) (filter (matches (target_id r) ts) L) else [])"
  by (induction L) auto

lemma traverse_mset:
  "mset (traverse (build ops) s pat d) =
   image_mset (nodes s)
     (filter_mset (matches s pat) (mset (List.n_lists (length pat) (added ops))))"
proof (induction pat arbitrary: s d)
  case Nil
  show ?case by (simp add: nodes_def)
next
  case (Cons t ts)
  let ?R = "added ops"
  let ?n = "length ts"
  have out: "get_outgoing (build ops) s (Some t) =
      filter (\<lambda>r. source_id r = s \<and> rel_type r = t) ?R"
    by (simp add: get_outgoing_Some get_outgoing_build conj_commute)
  have "mset (traverse (build ops) s (t # ts) d) =
      mset (concat (map (\<lambda>r. if source_id r = s \<and> rel_type r = t
          then map (Cons s) (traverse (build ops) (target_id r) ts (d - 1)) else []) ?R))"
    by (simp only: traverse_Cons out concat_map_filter)
  also have "\<dots> = mset (concat (map (\<lambda>r.
        map (nodes s) (filter (matches s (t # ts)) (map (Cons r) (List.n_lists ?n ?R)))) ?R))"
  proof (rule mset_concat_cong)
    fix r assume "r \<in> set ?R"
    have "mset (map (nodes s) (filter (matches s (t # ts)) (map (Cons r) (List.n_lists ?n ?R)))) =
       (if source_id r = s \<and> rel_type r = t
        then image_mset (Cons s) (image_mset (nodes (target_id r))
               (filter_mset (matches (target_id r) ts) (mset (List.n_lists ?n ?R))))
        else {#})"
      by (simp add: filter_matches_Cons nodes_def multiset.map_comp comp_def)
    then show "mset (if source_id r = s \<and> rel_type r = t
          then map (Cons s) (traverse (build ops) (target_id r) ts (d - 1)) else []) =
        mset (map (nodes s) (filter (matches s (t # ts)) (map (Cons r) (List.n_lists ?n ?R))))"
      by (simp add: Cons.IH)
  qed
  also have "\<dots> = mset (map (nodes s) (filter (matches s (t # ts))
        (concat (map (\<lambda>r. map (Cons r) (List.n_lists ?n ?R)) ?R))))"
    by (simp only: filter_concat_map map_concat_map)
  also have "\<dots> = image_mset (nodes s) (filter_mset (matches s (t # ts))
        (mset (concat (map (\<lambda>r. map (Cons r) (List.n_lists ?n ?R)) ?R))))"
    by simp
  also have "\<dots> = image_mset (nodes s) (filter_mset (matches s (t # ts))
        (mset (List.n_lists (Suc ?n) ?R)))"
    by (simp only: mset_n_lists_Suc)
  finally show ?case by simp
qed

lemma matches_length: "matches s pat rs \<Longrightarrow> length rs = length pat"
  by (induction s pat rs rule: matches.induct) simp_all

lemma pattern_path_iff:
  "(\<exists>rs. set rs \<subseteq> S \<and> matches s pat rs \<and> p = nodes s rs) \<longleftrightarrow>
   (length p = length pat + 1 \<and> hd p = s \<and>
    (\<forall>i<length pat. \<exists>r\<in>S. source_id r = p ! i \<and> target_id r = p ! Suc i \<and> rel_type r = pat ! i))"
proof (induction pat arbitrary: s p)
  case Nil
  have "matches s [] rs \<longleftrightarrow> rs = []" for rs by (cases rs) simp_all
  then show ?case by (cases p) (auto simp: nodes_def)
next
  case (Cons t ts)
  show ?case
  proof
    assume "\<exists>rs. set rs \<subseteq> S \<and> matches s (t # ts) rs \<and> p = nodes s rs"
    then obtain rs where rs: "set rs \<subseteq> S" "matches s (t # ts) rs" "p = nodes s rs" by blast
    then obtain r rs' where r: "rs = r # rs'" by (cases rs) auto
    let ?p' = "nodes (target_id r) rs'"
    have p: "p = s # ?p'" using rs r by (simp add: nodes_def)
    have "\<exists>rs. set rs \<subseteq> S \<and> matches (target_id r) ts rs \<and> ?p' = nodes (target_id r) rs"
      using rs r by auto
    then have IH: "length ?p' = length ts + 1" "hd ?p' = target_id r"
      "\<forall>i<length ts. \<exists>x\<in>S. source_id x = ?p' ! i \<and> target_id x = ?p' ! Suc i \<and> rel_type x = ts ! i"
      using Cons.IH [of "target_id r" ?p'] by blast+
    have r0: "r \<in> S" "source_id r = s" "rel_type r = t" using rs r by auto
    have "\<exists>x\<in>S. source_id x = p ! i \<and> target_id x = p ! Suc i \<and> rel_type x = (t # ts) ! i"
      if "i < length (t # ts)" for i
    proof (cases i)
      case 0
      then show ?thesis using r0 p by (auto simp: nodes_def)
    next
      case (Suc j)
      then show ?thesis using IH(3) that p by simp
    qed
    then show "length p = length (t # ts) + 1 \<and> hd p = s \<and>
      (\<forall>i<length (t # ts). \<exists>r\<in>S. source_id r = p ! i \<and> target_id r = p ! Suc i \<and> rel_type r = (t # ts) ! i)"
      using p IH(1) by simp
  next
    assume R: "length p = length (t # ts) + 1 \<and> hd p = s \<and>
      (\<forall>i<length (t # ts). \<exists>r\<in>S. source_id r = p ! i \<and> target_id r = p ! Suc i \<and> rel_type r = (t # ts) ! i)"
    then obtain p' where p: "p = s # p'" by (cases p) auto
    from R p obtain r where r: "r \<in> S" "source_id r = s" "target_id r = p' ! 0" "rel_type r = t"
      by fastforce
    have len: "length p' = length ts + 1" using R p by simp
    then have hd: "hd p' = target_id r" using r(3) by (cases p') auto
    have "\<exists>x\<in>S. source_id x = p' ! i \<and> target_id x = p' ! Suc i \<and> rel_type x = ts ! i"
      if "i < length ts" for i
      using R p that by (auto dest!: spec [of _ "Suc i"])
    with len hd have "\<exists>rs. set rs \<subseteq> S \<and> matches (target_id r) ts rs \<and> p' = nodes (target_id r) rs"
      using Cons.IH [of "target_id r" p'] by blast
    then obtain rs where "set rs \<subseteq> S" "matches (target_id r) ts rs" "p' = nodes (target_id r) rs"
      by blast
    then have "set (r # rs) \<subseteq> S \<and> matches s (t # ts) (r # rs) \<and> p = nodes s (r # rs)"
      using r(1,2,4) p by (simp add: nodes_def)
    then show "\<exists>rs. set rs \<subseteq> S \<and> matches s (t # ts) rs \<and> p = nodes s rs" by blast
  qed
qed

lemma traverse_set:
  "p \<in> set (traverse (build ops) s pat d) \<longleftrightarrow>
     (\<exists>rs. set rs \<subseteq> set (added ops) \<and> matches s pat rs \<and> p = nodes s rs)"
proof -
  have "p \<in> set (traverse (build ops) s pat d) \<longleftrightarrow> p \<in># mset (traverse (build ops) s pat d)"
    by simp
  also have "\<dots> \<longleftrightarrow> (\<exists>rs. length rs = length pat \<and> set rs \<subseteq> set (added ops) \<and> matches s pat rs \<and> p = nodes s rs)"
    unfolding traverse_mset by (auto simp: set_n_lists)
  also have "\<dots> \<longleftrightarrow> (\<exists>rs. set rs \<subseteq> set (added ops) \<and> matches s pat rs \<and> p = nodes s rs)"
    using matches_length by blast
  finally show ?thesis .
qed

lemmas kg_eval = build_def ex_ops_def ex_rel_def add_relationship_def add_entity_def
  KnowledgeGraph_init_def get_outgoing_def get_incoming_def dict_get_def

text \<open>
  C3. For every knowledge graph, start entity and pattern, \<open>traverse\<close> returns exactly
  the node sequences \<open>[start, n1, ..., nm]\<close>, \<open>m\<close> the length of the pattern, such
  that for each \<open>i\<close> the graph has a relationship from the \<open>i\<close>-th node to the next
  one whose type is the \<open>i\<close>-th of the pattern; it returns one path per matching
  sequence of relationships (the multiset equation: the sequences of length \<open>m\<close> over the
  graph's relationship list, filtered by \<open>matches\<close>); for the empty pattern it returns
  \<open>[[start]]\<close>.
\<close>

theorem traverse_pattern_paths:
  "(p \<in> set (traverse (build ops) s pat d) \<longleftrightarrow>
      length p = length pat + 1 \<and> hd p = s \<and>
      (\<forall>i<length pat. \<exists>r\<in>set (relationships (build ops)).
          source_id r = p ! i \<and> target_id r = p ! Suc i \<and> rel_type r = pat ! i)) \<and>
   mset (traverse (build ops) s pat d) =
     image_mset (nodes s)
       (filter_mset (matches s pat)
          (mset (List.n_lists (length pat) (relationships (build ops))))) \<and>
   traverse (build ops) s [] d = [[s]]"
  by (simp only: traverse_set pattern_path_iff traverse_mset relationships_build traverse.simps
      simp_thms)

theorem traverse_pattern_paths_witness:
  "[''a'', ''b'', ''c''] \<in> set (traverse (build ex_ops) ''a'' [OWNS, AFFECTS] 10) \<and>
   [''a'', ''c''] \<notin> set (traverse (build ex_ops) ''a'' [OWNS] 10) \<and>
   traverse (build ex_ops) ''a'' [] 10 = [[''a'']]"
proof -
  have "\<forall>i<length [OWNS, AFFECTS]. \<exists>r\<in>set (relationships (build ex_ops)).
          source_id r = [''a'', ''b'', ''c''] ! i \<and> target_id r = [''a'', ''b'', ''c''] ! Suc i \<and>
          rel_type r = [OWNS, AFFECTS] ! i"
    by (simp add: relationships_build ex_ops_def ex_rel_def less_Suc_eq)
  then have 1: "[''a'', ''b'', ''c''] \<in> set (traverse (build ex_ops) ''a'' [OWNS, AFFECTS] 10)"
    using traverse_pattern_paths [of "[''a'', ''b'', ''c'']" ex_ops "''a''" "[OWNS, AFFECTS]" 10]
    by simp
  have "\<not> (\<forall>i<length [OWNS]. \<exists>r\<in>set (relationships (build ex_ops)).
          source_id r = [''a'', ''c''] ! i \<and> target_id r = [''a'', ''c''] ! Suc i \<and>
          rel_type r = [OWNS] ! i)"
    by (simp add: relationships_build ex_ops_def ex_rel_def)
  then have 2: "[''a'', ''c''] \<notin> set (traverse (build ex_ops) ''a'' [OWNS] 10)"
    using traverse_pattern_paths [of "[''a'', ''c'']" ex_ops "''a''" "[OWNS]" 10]
    by simp
  have 3: "traverse (build ex_ops) ''a'' [] 10 = [[''a'']]"
    using traverse_pattern_paths [of "[]" ex_ops "''a''" "[]" 10] by simp
  from 1 2 3 show ?thesis by simp
qed

text \<open>
  C4. The claim is that every path \<open>traverse\<close> returns has at most \<open>max_depth\<close> hops.
  The code never compares \<open>max_depth\<close> with anything: with \<open>max_depth = 1\<close> and a
  pattern of length two it returns a path of two hops, and its result is the same for
  every \<open>max_depth\<close>.
\<close>

theorem traverse_exceeds_max_depth:
  "traverse (build ex_ops) ''a'' [OWNS, AFFECTS] 1 = [[''a'', ''b'', ''c'']] \<and>
   length [''a'', ''b'', ''c''] - 1 = (2::nat) \<and>
   traverse g s pat d = traverse g s pat d'"
proof -
  have "traverse g s pat d = traverse g s pat d'"
  proof (induction pat arbitrary: s d d')
    case Nil
    show ?case by simp
  next
    case (Cons t ts)
    show ?case by (simp only: traverse_Cons Cons.IH [of _ "d - 1" "d' - 1"])
  qed
  then show ?thesis by (simp add: kg_eval)
qed

section \<open>Neighbourhood expansion\<close>

lemma set_set_add [simp]: "set (set_add xs x) = insert x (set xs)"
  by (auto simp: set_add_def)

lemma fold_visit:
  "\<exists>F'. fold (\<lambda>rel. visit (f rel)) rels (V, F) = (V \<union> f ` set rels, F') \<and>
        set F' = set F \<union> (f ` set rels - V)"
proof (induction rels arbitrary: V F)
  case Nil
  show ?case by simp
next
  case (Cons r rels)
  show ?case
  proof (cases "f r \<in> V")
    case True
    with Cons.IH [of V F] show ?thesis by (auto simp: visit_def)
  next
    case False
    with Cons.IH [of "insert (f r) V" "set_add F (f r)"] show ?thesis
      by (auto simp: visit_def)
  qed
qed

lemma expand_entity_eq:
  "\<exists>F'. expand_entity g u (V, F) = (V \<union> neighbours g u, F') \<and>
        set F' = set F \<union> (neighbours g u - V)"
proof -
  obtain F1 where 1: "fold (\<lambda>rel. visit (target_id rel)) (get_outgoing g u None) (V, F) =
      (V \<union> target_id ` set (get_outgoing g u None), F1)"
    "set F1 = set F \<union> (target_id ` set (get_outgoing g u None) - V)"
    using fold_visit [of target_id "get_outgoing g u None" V F] by blast
  obtain F2 where 2: "fold (\<lambda>rel. visit (source_id rel)) (get_incoming g u None)
       (V \<union> target_id ` set (get_outgoing g u None), F1) =
      (V \<union> target_id ` set (get_outgoing g u None) \<union> source_id ` set (get_incoming g u None), F2)"
    "set F2 = set F1 \<union> (source_id ` set (get_incoming g u None) -
        (V \<union> target_id ` set (get_outgoing g u None)))"
    using fold_visit [of source_id "get_incoming g u None"
        "V \<union> target_id ` set (get_outgoing g u None)" F1] by blast
  have "expand_entity g u (V, F) = (V \<union> neighbours g u, F2)"
    by (simp add: expand_entity_def 1 2 neighbours_def Un_assoc)
  moreover have "set F2 = set F \<union> (neighbours g u - V)"
    using 1(2) 2(2) by (auto simp: neighbours_def)
  ultimately show ?thesis by blast
qed

lemma fold_expand_entity:
  "\<exists>F'. fold (expand_entity g) fr (V, F) = (V \<union> (\<Union>u\<in>set fr. neighbours g u), F') \<and>
        set F' = set F \<union> ((\<Union>u\<in>set fr. neighbours g u) - V)"
proof (induction fr arbitrary: V F)
  case Nil
  show ?case by simp
next
  case (Cons u fr)
  obtain F1 where 1: "expand_entity g u (V, F) = (V \<union> neighbours g u, F1)"
    "set F1 = set F \<union> (neighbours g u - V)"
    using expand_entity_eq [of g u V F] by blast
  obtain F2 where 2: "fold (expand_entity g) fr (V \<union> neighbours g u, F1) =
      (V \<union> neighbours g u \<union> (\<Union>u\<in>set fr. neighbours g u), F2)"
    "set F2 = set F1 \<union> ((\<Union>u\<in>set fr. neighbours g u) - (V \<union> neighbours g u))"
    using Cons.IH [of "V \<union> neighbours g u" F1] by blast
  have "fold (expand_entity g) (u # fr) (V, F) =
      (V \<union> (\<Union>u\<in>set (u # fr). neighbours g u), F2)"
    by (simp add: 1 2 Un_assoc)
  moreover have "set F2 = set F \<union> ((\<Union>u\<in>set (u # fr). neighbours g u) - V)"
    using 1(2) 2(2) by auto
  ultimately show ?case by blast
qed

lemma hop_eq:
  "\<exists>F'. hop g (V, fr) = (V \<union> (\<Union>u\<in>set fr. neighbours g u), F') \<and>
        set F' = (\<Union>u\<in>set fr. neighbours g u) - V"
  using fold_expand_entity [of g fr V "[]"] by (simp add: hop_def)

lemma within_0: "reach_within g s 0 = {s}"
  by (auto simp: reach_within_def)

lemma within_Suc: "reach_within g s (Suc k) = reach_within g s k \<union> (\<Union>u\<in>reach_within g s k. neighbours g u)"
proof (rule set_eqI, rule iffI)
  fix v assume "v \<in> reach_within g s (Suc k)"
  then obtain n where n: "n \<le> Suc k" "(s, v) \<in> adjacent g ^^ n" by (auto simp: reach_within_def)
  show "v \<in> reach_within g s k \<union> (\<Union>u\<in>reach_within g s k. neighbours g u)"
  proof (cases n)
    case 0
    with n show ?thesis by (auto simp: reach_within_def)
  next
    case (Suc m)
    with n obtain u where "(s, u) \<in> adjacent g ^^ m" "(u, v) \<in> adjacent g" by auto
    moreover have "m \<le> k" using n Suc by simp
    ultimately have "u \<in> reach_within g s k" "v \<in> neighbours g u"
      by (auto simp: reach_within_def adjacent_def)
    then show ?thesis by blast
  qed
next
  fix v assume "v \<in> reach_within g s k \<union> (\<Union>u\<in>reach_within g s k. neighbours g u)"
  then show "v \<in> reach_within g s (Suc k)"
  proof
    assume "v \<in> reach_within g s k"
    then show ?thesis by (auto simp: reach_within_def intro: le_SucI)
  next
    assume "v \<in> (\<Union>u\<in>reach_within g s k. neighbours g u)"
    then obtain u n where "n \<le> k" "(s, u) \<in> adjacent g ^^ n" "(u, v) \<in> adjacent g"
      by (auto simp: reach_within_def adjacent_def)
    then have "Suc n \<le> Suc k" "(s, v) \<in> adjacent g ^^ Suc n" by auto
    then show ?thesis unfolding reach_within_def by blast
  qed
qed

lemma frontier_closure:
  "fr \<subseteq> W \<Longrightarrow> \<forall>u\<in>W - fr. N u \<subseteq> W \<Longrightarrow>
   W \<union> (\<Union>u\<in>W. N u) = W \<union> (\<Union>u\<in>fr. N u)"
  by blast

lemma frontier_next:
  "F' = (\<Union>u\<in>fr. N u) - W \<Longrightarrow> W' = W \<union> (\<Union>u\<in>fr. N u) \<Longrightarrow> fr \<subseteq> W \<Longrightarrow>
   \<forall>u\<in>W - fr. N u \<subseteq> W \<Longrightarrow> F' \<subseteq> W' \<and> (\<forall>u\<in>W' - F'. N u \<subseteq> W')"
  by blast

lemma hops_invariant:
  "\<exists>fr. (hop g ^^ k) ({s}, [s]) = (reach_within g s k, fr) \<and> set fr \<subseteq> reach_within g s k \<and>
        (\<forall>u\<in>reach_within g s k - set fr. neighbours g u \<subseteq> reach_within g s k)"
proof (induction k)
  case 0
  show ?case by (simp add: within_0)
next
  case (Suc k)
  then obtain fr where fr: "(hop g ^^ k) ({s}, [s]) = (reach_within g s k, fr)"
    "set fr \<subseteq> reach_within g s k"
    "\<forall>u\<in>reach_within g s k - set fr. neighbours g u \<subseteq> reach_within g s k"
    by blast
  obtain F' where F': "hop g (reach_within g s k, fr) =
      (reach_within g s k \<union> (\<Union>u\<in>set fr. neighbours g u), F')"
    "set F' = (\<Union>u\<in>set fr. neighbours g u) - reach_within g s k"
    using hop_eq [of g "reach_within g s k" fr] by blast
  have W: "reach_within g s (Suc k) = reach_within g s k \<union> (\<Union>u\<in>set fr. neighbours g u)"
    unfolding within_Suc by (rule frontier_closure [OF fr(2) fr(3)])
  have step: "(hop g ^^ Suc k) ({s}, [s]) = hop g (reach_within g s k, fr)"
    by (simp only: funpow.simps o_apply fr(1))
  have "(hop g ^^ Suc k) ({s}, [s]) = (reach_within g s (Suc k), F')"
    by (simp only: step F'(1) W)
  moreover have "set F' \<subseteq> reach_within g s (Suc k) \<and>
      (\<forall>u\<in>reach_within g s (Suc k) - set F'. neighbours g u \<subseteq> reach_within g s (Suc k))"
    by (rule frontier_next [OF F'(2) W fr(2) fr(3)])
  ultimately show ?case by blast
qed

lemma find_all_connected_within:
  "find_all_connected g s h = reach_within g s (nat h)"
proof -
  obtain fr where "(hop g ^^ nat h) ({s}, [s]) = (reach_within g s (nat h), fr)"
    using hops_invariant [where g = g and k = "nat h" and s = s] by blast
  then show ?thesis by (simp add: find_all_connected_def)
qed

lemma adjacent_build: "adjacent (build ops) = links (build ops) \<union> (links (build ops))\<inverse>"
  by (auto simp: adjacent_def neighbours_def links_def get_outgoing_build get_incoming_build
      relationships_build)

text \<open>
  C7. For every knowledge graph, start entity and \<open>max_hops \<ge> 0\<close>,
  \<open>find_all_connected\<close> returns exactly the set of entity ids reachable from the start
  in at most \<open>max_hops\<close> hops when relationships are followed in both directions, and
  the start itself is always in that set.
\<close>

theorem find_all_connected_reachable:
  "0 \<le> max_hops \<Longrightarrow>
   find_all_connected (build ops) start_id max_hops =
     {v. \<exists>n. int n \<le> max_hops \<and> (start_id, v) \<in> (links (build ops) \<union> (links (build ops))\<inverse>) ^^ n} \<and>
   start_id \<in> find_all_connected (build ops) start_id max_hops"
proof -
  assume h: "0 \<le> max_hops"
  have 1: "find_all_connected (build ops) start_id max_hops =
     {v. \<exists>n. int n \<le> max_hops \<and> (start_id, v) \<in> (links (build ops) \<union> (links (build ops))\<inverse>) ^^ n}"
    unfolding find_all_connected_within reach_within_def adjacent_build using h
    by (auto simp: nat_le_iff le_nat_iff)
  have "(start_id, start_id) \<in> (links (build ops) \<union> (links (build ops))\<inverse>) ^^ 0" by simp
  with h have "start_id \<in> {v. \<exists>n. int n \<le> max_hops \<and> (start_id, v) \<in> (links (build ops) \<union> (links (build ops))\<inverse>) ^^ n}"
    by (intro CollectI exI [of _ 0]) simp
  with 1 show ?thesis by simp
qed

theorem find_all_connected_reachable_witness:
  "(0::int) \<le> 1 \<and>
   {v. \<exists>n. int n \<le> 1 \<and> (''c'', v) \<in> (links (build ex_ops) \<union> (links (build ex_ops))\<inverse>) ^^ n} =
     {''a'', ''b'', ''c''} \<and>
   ''c'' \<in> find_all_connected (build ex_ops) ''c'' 1"
proof -
  have run: "find_all_connected (build ex_ops) ''c'' 1 = {''a'', ''b'', ''c''}"
    by (simp add: find_all_connected_def hop_def expand_entity_def visit_def set_add_def kg_eval)
  have h: "(0::int) \<le> 1" by simp
  note T = find_all_connected_reachable [OF h, of ex_ops "''c''"]
  have a: "{v. \<exists>n. int n \<le> 1 \<and> (''c'', v) \<in> (links (build ex_ops) \<union> (links (build ex_ops))\<inverse>) ^^ n} =
      {''a'', ''b'', ''c''}"
    using T [THEN conjunct1] run by (rule trans [OF sym])
  show ?thesis
    using h a T [THEN conjunct2] by (intro conjI)
qed

section \<open>Shortest path\<close>

lemma scan_rels_Inl:
  "scan_rels t p rels V Q = Inl r \<Longrightarrow> r = p @ [t] \<and> t \<in> target_id ` set rels"
  by (induction rels arbitrary: V Q) (auto split: if_splits)

lemma scan_rels_Inr:
  "scan_rels t p rels V Q = Inr (V', Q') \<Longrightarrow>
   t \<notin> target_id ` set rels \<and> V' = V \<union> target_id ` set rels \<and>
   (\<exists>new. Q' = Q @ new \<and> (\<forall>e\<in>set new. snd e = p @ [fst e]) \<and>
      fst ` set new = target_id ` set rels - V)"
proof (induction rels arbitrary: V Q)
  case Nil
  then show ?case by simp
next
  case (Cons r rels)
  let ?x = "target_id r"
  from Cons.prems have nt: "?x \<noteq> t" by (auto split: if_splits)
  show ?case
  proof (cases "?x \<in> V")
    case True
    with nt Cons.prems have "scan_rels t p rels V Q = Inr (V', Q')" by simp
    from Cons.IH [OF this] True nt show ?thesis by auto
  next
    case False
    with nt Cons.prems
    have "scan_rels t p rels (insert ?x V) (Q @ [(?x, p @ [?x])]) = Inr (V', Q')" by simp
    from Cons.IH [OF this] obtain new where new:
      "t \<notin> target_id ` set rels" "V' = insert ?x V \<union> target_id ` set rels"
      "Q' = (Q @ [(?x, p @ [?x])]) @ new" "\<forall>e\<in>set new. snd e = p @ [fst e]"
      "fst ` set new = target_id ` set rels - insert ?x V"
      by blast
    let ?new = "(?x, p @ [?x]) # new"
    have "Q' = Q @ ?new" using new(3) by simp
    moreover have "\<forall>e\<in>set ?new. snd e = p @ [fst e]" using new(4) by simp
    moreover have "fst ` set ?new = target_id ` set (r # rels) - V"
      using new(5) False by auto
    moreover have "t \<notin> target_id ` set (r # rels)" using new(1) nt by auto
    moreover have "V' = V \<union> target_id ` set (r # rels)" using new(2) by auto
    ultimately show ?thesis by blast
  qed
qed

lemma successively_nth:
  "successively P xs \<Longrightarrow> Suc i < length xs \<Longrightarrow> P (xs ! i) (xs ! Suc i)"
proof (induction P xs arbitrary: i rule: successively.induct)
  case (3 P x y xs)
  then show ?case by (cases i) auto
qed simp_all

lemma is_walk_step: "is_walk g q \<Longrightarrow> Suc i < length q \<Longrightarrow> q ! Suc i \<in> succs g (q ! i)"
  by (auto simp: is_walk_def dest: successively_nth)

lemma is_walk_snoc: "is_walk g p \<Longrightarrow> w \<in> succs g (last p) \<Longrightarrow> is_walk g (p @ [w])"
  by (auto simp: is_walk_def successively_append_iff)

lemma not_last_index:
  assumes "goal_walk g s t q" "i < length q" "q ! i \<in> V" "t \<notin> V"
  shows "Suc i < length q"
proof (rule ccontr)
  assume "\<not> Suc i < length q"
  with assms(2) have "i = length q - 1" by simp
  moreover have "q \<noteq> []" using assms(2) by auto
  ultimately have "q ! i = last q" by (simp add: last_conv_nth)
  with assms(1,3,4) show False by (simp add: goal_walk_def)
qed

lemma last_visited:
  assumes "i < length (q::string list)" "q ! i \<in> V"
  shows "\<exists>k. i \<le> k \<and> k < length q \<and> q ! k \<in> V \<and> (\<forall>j. k < j \<and> j < length q \<longrightarrow> q ! j \<notin> V)"
proof -
  let ?P = "\<lambda>k. k < length q \<and> q ! k \<in> V"
  have "?P i" using assms by simp
  moreover have "\<forall>y. ?P y \<longrightarrow> (\<lambda>x. x) y < length q" by simp
  ultimately obtain k where k: "?P k" "\<forall>y. ?P y \<longrightarrow> y \<le> k"
    using ex_has_greatest_nat [where P = ?P and k = i and f = "\<lambda>x. x" and b = "length q"]
    by blast
  have "i \<le> k" using k(2) \<open>?P i\<close> by blast
  moreover have "\<forall>j. k < j \<and> j < length q \<longrightarrow> q ! j \<notin> V"
    using k(2) by (meson not_less)
  ultimately show ?thesis using k(1) by blast
qed

lemma inv_init: "s \<noteq> t \<Longrightarrow> bfs_inv g s t D {s} [(s, [s])]"
proof -
  assume st: "s \<noteq> t"
  have "\<exists>i<length q. \<exists>p. (q ! i, p) \<in> set [(s, [s])] \<and> length p \<le> i + 1 \<and>
           (\<forall>j. i < j \<and> j < length q \<longrightarrow> q ! j \<notin> {s})"
    if "goal_walk g s t q" for q
  proof -
    have ne: "q \<noteq> []" using that by (simp add: goal_walk_def is_walk_def)
    then have "0 < length q" "q ! 0 \<in> {s}" using that by (simp_all add: goal_walk_def hd_conv_nth)
    from last_visited [OF this] obtain k where
      "k < length q" "q ! k \<in> {s}" "\<forall>j. k < j \<and> j < length q \<longrightarrow> q ! j \<notin> {s}" by blast
    then show ?thesis by (intro exI [of _ k] exI [of _ "[s]"]) simp
  qed
  then show ?thesis using st by (simp add: bfs_inv_def is_walk_def)
qed

lemma inv_empty:
  assumes "bfs_inv g s t D V []" "goal_walk g s t q"
  shows "\<not> int (length q) \<le> D + 1"
  using assms by (auto simp: bfs_inv_def)

lemma inv_skip:
  assumes inv: "bfs_inv g s t D V ((c, p) # Q)" and big: "int (length p) > D"
  shows "bfs_inv g s t D V Q"
proof -
  from inv have tV: "t \<notin> V"
    and ent: "\<forall>e\<in>set ((c, p) # Q). is_walk g (snd e) \<and> hd (snd e) = s \<and> last (snd e) = fst e \<and> fst e \<in> V"
    and srt: "sorted (map (length \<circ> snd) ((c, p) # Q))"
    and spr: "\<forall>e\<in>set ((c, p) # Q). length (snd e) \<le> length (snd (hd ((c, p) # Q))) + 1"
    and cut: "\<forall>q. goal_walk g s t q \<and> int (length q) \<le> D + 1 \<longrightarrow>
        (\<exists>i<length q. \<exists>p'. (q ! i, p') \<in> set ((c, p) # Q) \<and> length p' \<le> i + 1 \<and>
           (\<forall>j. i < j \<and> j < length q \<longrightarrow> q ! j \<notin> V))"
    by (simp_all add: bfs_inv_def)
  have spr': "\<forall>e\<in>set Q. length (snd e) \<le> length (snd (hd Q)) + 1"
  proof
    fix e assume e: "e \<in> set Q"
    then have "Q \<noteq> []" by auto
    then have "hd Q \<in> set Q" by simp
    with srt have "length p \<le> length (snd (hd Q))" by auto
    moreover from spr e have "length (snd e) \<le> length p + 1" by simp
    ultimately show "length (snd e) \<le> length (snd (hd Q)) + 1" by simp
  qed
  have cut': "\<exists>i<length q. \<exists>p'. (q ! i, p') \<in> set Q \<and> length p' \<le> i + 1 \<and>
           (\<forall>j. i < j \<and> j < length q \<longrightarrow> q ! j \<notin> V)"
    if q: "goal_walk g s t q" "int (length q) \<le> D + 1" for q
  proof -
    from cut q obtain i p' where i: "i < length q" "(q ! i, p') \<in> set ((c, p) # Q)"
      "length p' \<le> i + 1" "\<forall>j. i < j \<and> j < length q \<longrightarrow> q ! j \<notin> V" by blast
    have "q ! i \<in> V" using ent i(2) by force
    from not_last_index [OF q(1) i(1) this tV] have "Suc i < length q" .
    with q(2) i(3) big have "p' \<noteq> p" by auto
    with i(2) have "(q ! i, p') \<in> set Q" by auto
    with i show ?thesis by blast
  qed
  from tV ent srt spr' cut' show ?thesis by (simp add: bfs_inv_def)
qed

lemma inv_found:
  assumes inv: "bfs_inv g s t D V ((c, p) # Q)" and small: "\<not> int (length p) > D"
    and edge: "t \<in> succs g c"
  shows "goal_walk g s t (p @ [t]) \<and> int (length (p @ [t])) \<le> D + 1 \<and>
         (\<forall>q. goal_walk g s t q \<longrightarrow> length (p @ [t]) \<le> length q)"
proof -
  from inv have tV: "t \<notin> V"
    and ent: "\<forall>e\<in>set ((c, p) # Q). is_walk g (snd e) \<and> hd (snd e) = s \<and> last (snd e) = fst e \<and> fst e \<in> V"
    and srt: "sorted (map (length \<circ> snd) ((c, p) # Q))"
    and cut: "\<forall>q. goal_walk g s t q \<and> int (length q) \<le> D + 1 \<longrightarrow>
        (\<exists>i<length q. \<exists>p'. (q ! i, p') \<in> set ((c, p) # Q) \<and> length p' \<le> i + 1 \<and>
           (\<forall>j. i < j \<and> j < length q \<longrightarrow> q ! j \<notin> V))"
    by (simp_all add: bfs_inv_def)
  from ent have p: "is_walk g p" "hd p = s" "last p = c" by simp_all
  then have ne: "p \<noteq> []" by (simp add: is_walk_def)
  have 1: "goal_walk g s t (p @ [t])"
    using is_walk_snoc [of g p t] p edge ne by (simp add: goal_walk_def)
  have 2: "int (length (p @ [t])) \<le> D + 1" using small by simp
  have 3: "length (p @ [t]) \<le> length q" if q: "goal_walk g s t q" for q
  proof (cases "int (length q) \<le> D + 1")
    case False
    with 2 show ?thesis by linarith
  next
    case True
    with cut q obtain i p' where i: "i < length q" "(q ! i, p') \<in> set ((c, p) # Q)"
      "length p' \<le> i + 1" by blast
    have "q ! i \<in> V" using ent i(2) by force
    from not_last_index [OF q i(1) this tV] have "Suc i < length q" .
    moreover have "length p \<le> length p'" using srt i(2) by force
    ultimately show ?thesis using i(3) by simp
  qed
  from 1 2 3 show ?thesis by blast
qed

lemma sorted_const: "\<forall>x\<in>set xs. x = (k::nat) \<Longrightarrow> sorted xs"
  by (induction xs) auto

lemma inv_expand:
  assumes inv: "bfs_inv g s t D V ((c, p) # Q)"
    and scan: "scan_rels t p (get_outgoing g c None) V Q = Inr (V', Q')"
  shows "bfs_inv g s t D V' Q'"
proof -
  from inv have tV: "t \<notin> V"
    and ent: "\<forall>e\<in>set ((c, p) # Q). is_walk g (snd e) \<and> hd (snd e) = s \<and> last (snd e) = fst e \<and> fst e \<in> V"
    and srt: "sorted (map (length \<circ> snd) ((c, p) # Q))"
    and spr: "\<forall>e\<in>set ((c, p) # Q). length (snd e) \<le> length (snd (hd ((c, p) # Q))) + 1"
    and cut: "\<forall>q. goal_walk g s t q \<and> int (length q) \<le> D + 1 \<longrightarrow>
        (\<exists>i<length q. \<exists>p'. (q ! i, p') \<in> set ((c, p) # Q) \<and> length p' \<le> i + 1 \<and>
           (\<forall>j. i < j \<and> j < length q \<longrightarrow> q ! j \<notin> V))"
    by (simp_all add: bfs_inv_def)
  from scan_rels_Inr [OF scan] obtain new where
    nt: "t \<notin> succs g c" and V': "V' = V \<union> succs g c" and Q': "Q' = Q @ new"
    and new: "\<forall>e\<in>set new. snd e = p @ [fst e]" and fnew: "fst ` set new = succs g c - V"
    unfolding succs_def by blast
  from ent have p: "is_walk g p" "hd p = s" "last p = c" "c \<in> V" by simp_all
  then have ne: "p \<noteq> []" by (simp add: is_walk_def)
  have newlen: "length (snd e) = length p + 1" if "e \<in> set new" for e
    using new that by simp
  have oldlen: "length (snd e) \<le> length p + 1" if "e \<in> set Q" for e
    using spr that by simp
  have lenQ: "length p \<le> length (snd e)" if "e \<in> set Q" for e
    using srt that by auto
  have 1: "t \<notin> V'" using tV nt V' by simp
  have 2: "\<forall>e\<in>set Q'. is_walk g (snd e) \<and> hd (snd e) = s \<and> last (snd e) = fst e \<and> fst e \<in> V'"
  proof
    fix e assume "e \<in> set Q'"
    then consider "e \<in> set Q" | "e \<in> set new" using Q' by auto
    then show "is_walk g (snd e) \<and> hd (snd e) = s \<and> last (snd e) = fst e \<and> fst e \<in> V'"
    proof cases
      case 1
      with ent V' show ?thesis by simp
    next
      case 2
      then have e: "snd e = p @ [fst e]" "fst e \<in> succs g c" using new fnew by auto
      then have "is_walk g (snd e)" using is_walk_snoc [of g p "fst e"] p by simp
      with e ne p V' show ?thesis by simp
    qed
  qed
  have 3: "sorted (map (length \<circ> snd) Q')"
  proof -
    have "sorted (map (length \<circ> snd) Q)" using srt by simp
    moreover have "sorted (map (length \<circ> snd) new)"
      by (rule sorted_const [where k = "length p + 1"]) (auto simp: newlen)
    moreover have "\<forall>x\<in>set (map (length \<circ> snd) Q). \<forall>y\<in>set (map (length \<circ> snd) new). x \<le> y"
      using oldlen newlen by auto
    ultimately show ?thesis unfolding Q' by (simp add: sorted_append)
  qed
  have 4: "\<forall>e\<in>set Q'. length (snd e) \<le> length (snd (hd Q')) + 1"
  proof (cases "Q = []")
    case True
    show ?thesis
    proof
      fix e assume e: "e \<in> set Q'"
      with True Q' have en: "e \<in> set new" by simp
      then have "new \<noteq> []" by auto
      then have "hd Q' \<in> set new" using True Q' by simp
      with en show "length (snd e) \<le> length (snd (hd Q')) + 1" by (simp add: newlen)
    qed
  next
    case False
    then have hd: "hd Q' = hd Q" "hd Q \<in> set Q" using Q' by simp_all
    show ?thesis
    proof
      fix e assume "e \<in> set Q'"
      then consider "e \<in> set Q" | "e \<in> set new" using Q' by auto
      then show "length (snd e) \<le> length (snd (hd Q')) + 1"
      proof cases
        case 1
        from oldlen [OF 1] lenQ [OF hd(2)] show ?thesis unfolding hd(1) by simp
      next
        case 2
        from newlen [OF 2] lenQ [OF hd(2)] show ?thesis unfolding hd(1) by simp
      qed
    qed
  qed
  have 5: "\<exists>i<length q. \<exists>p'. (q ! i, p') \<in> set Q' \<and> length p' \<le> i + 1 \<and>
           (\<forall>j. i < j \<and> j < length q \<longrightarrow> q ! j \<notin> V')"
    if q: "goal_walk g s t q" "int (length q) \<le> D + 1" for q
  proof -
    from cut q obtain i p' where i: "i < length q" "(q ! i, p') \<in> set ((c, p) # Q)"
      "length p' \<le> i + 1" "\<forall>j. i < j \<and> j < length q \<longrightarrow> q ! j \<notin> V" by blast
    have iV: "q ! i \<in> V" using ent i(2) by force
    then have "q ! i \<in> V'" using V' by simp
    from last_visited [OF i(1) this] obtain k where k: "i \<le> k" "k < length q" "q ! k \<in> V'"
      "\<forall>j. k < j \<and> j < length q \<longrightarrow> q ! j \<notin> V'" by blast
    have pp': "length p \<le> length p'" using srt i(2) by force
    show ?thesis
    proof (cases "k = i")
      case True
      have "(q ! i, p') \<noteq> (c, p)"
      proof
        assume eq: "(q ! i, p') = (c, p)"
        from not_last_index [OF q(1) i(1) iV tV] have S: "Suc i < length q" .
        from q(1) have "is_walk g q" by (simp add: goal_walk_def)
        from is_walk_step [OF this S] eq have "q ! Suc i \<in> V'" using V' by simp
        with k(4) True S show False by simp
      qed
      with i(2) have "(q ! i, p') \<in> set Q'" using Q' by auto
      with i(1,3) k(4) True show ?thesis by blast
    next
      case False
      with k(1) have ik: "i < k" by simp
      with i(4) k(2) have "q ! k \<notin> V" by simp
      with k(3) V' have "q ! k \<in> succs g c - V" by simp
      with fnew obtain e where e: "e \<in> set new" "fst e = q ! k" by force
      then have "(q ! k, p @ [q ! k]) \<in> set Q'" using new Q'
        by (metis Un_iff prod.collapse set_append)
      moreover have "length (p @ [q ! k]) \<le> k + 1" using pp' i(3) ik by simp
      ultimately show ?thesis using k(2,4) by blast
    qed
  qed
  from 1 2 3 4 5 show ?thesis by (simp add: bfs_inv_def)
qed

lemma bfs_correct: "bfs_inv g s t D V Q \<Longrightarrow> bfs_ok g s t D (bfs g t D V Q)"
proof (induction g t D V Q rule: bfs.induct)
  case (1 g t D V)
  then show ?case using inv_empty [of g s t D V] by (auto simp: bfs_ok_def)
next
  case (2 g t D V c p Q)
  show ?case
  proof (cases "int (length p) > D")
    case True
    from inv_skip [OF "2.prems" True] have "bfs_inv g s t D V Q" .
    from "2.IH"(1) [OF True this] True show ?thesis by simp
  next
    case False
    show ?thesis
    proof (cases "scan_rels t p (get_outgoing g c None) V Q")
      case (Inl r)
      from scan_rels_Inl [OF Inl] have r: "r = p @ [t]" "t \<in> succs g c"
        by (simp_all add: succs_def)
      from inv_found [OF "2.prems" False r(2)] Inl False r(1) show ?thesis
        by (simp add: bfs_ok_def)
    next
      case (Inr vq)
      obtain V' Q' where vq: "vq = (V', Q')" by (cases vq)
      from inv_expand [OF "2.prems" Inr [unfolded vq]] have "bfs_inv g s t D V' Q'" .
      from "2.IH"(2) [OF False Inr vq [symmetric] this] Inr vq False show ?thesis by simp
    qed
  qed
qed

lemma shortest_path_ok:
  "s \<noteq> t \<Longrightarrow> bfs_ok g s t D (shortest_path g s t D)"
  by (simp add: shortest_path_def bfs_correct inv_init del: bfs.simps)

lemma succs_build: "v \<in> succs (build ops) u \<longleftrightarrow> (u, v) \<in> links (build ops)"
  by (auto simp: succs_def links_def get_outgoing_build relationships_build)

lemma goal_walk_build: "goal_walk (build ops) s t q \<longleftrightarrow> directed_path (build ops) s t q"
  by (auto simp: goal_walk_def is_walk_def directed_path_def succs_build)

lemma hops_le: "p \<noteq> [] \<Longrightarrow> int (hops p) \<le> D \<longleftrightarrow> int (length p) \<le> D + 1"
  by (cases p) (auto simp: hops_def)

lemma directed_path_ne: "directed_path g s t p \<Longrightarrow> p \<noteq> []"
  by (simp add: directed_path_def)

text \<open>
  C1. For every knowledge graph and entity ids \<open>s\<close> and \<open>t\<close>, \<open>shortest_path\<close>
  returns \<open>[s]\<close> when \<open>s = t\<close>; otherwise, when a directed path from \<open>s\<close> to \<open>t\<close>
  of at most \<open>max_depth\<close> hops exists, it returns a directed path whose hop count is the
  minimum directed hop distance, and it returns \<open>None\<close> when no directed path of at
  most \<open>max_depth\<close> hops exists. The search always ends: \<open>bfs\<close> is a total function.
\<close>

theorem shortest_path_minimal:
  "(s = t \<longrightarrow> shortest_path (build ops) s t D = Some [s]) \<and>
   (s \<noteq> t \<longrightarrow> (\<exists>p. directed_path (build ops) s t p \<and> int (hops p) \<le> D) \<longrightarrow>
      (\<exists>r. shortest_path (build ops) s t D = Some r \<and> directed_path (build ops) s t r \<and>
           int (hops r) \<le> D \<and> hops r = hop_distance (build ops) s t)) \<and>
   (s \<noteq> t \<longrightarrow> \<not> (\<exists>p. directed_path (build ops) s t p \<and> int (hops p) \<le> D) \<longrightarrow>
      shortest_path (build ops) s t D = None)"
proof (intro conjI impI)
  assume "s = t"
  then show "shortest_path (build ops) s t D = Some [s]" by (simp add: shortest_path_def)
next
  assume st: "s \<noteq> t" and ex: "\<exists>p. directed_path (build ops) s t p \<and> int (hops p) \<le> D"
  let ?g = "build ops"
  from shortest_path_ok [OF st, of ?g D] have ok: "bfs_ok ?g s t D (shortest_path ?g s t D)" .
  from ex obtain p where p: "directed_path ?g s t p" "int (length p) \<le> D + 1"
    using hops_le directed_path_ne by blast
  show "\<exists>r. shortest_path ?g s t D = Some r \<and> directed_path ?g s t r \<and>
           int (hops r) \<le> D \<and> hops r = hop_distance ?g s t"
  proof (cases "shortest_path ?g s t D")
    case None
    with ok p show ?thesis by (auto simp: bfs_ok_def goal_walk_build)
  next
    case (Some r)
    with ok have r: "directed_path ?g s t r" "int (length r) \<le> D + 1"
      "\<forall>q. directed_path ?g s t q \<longrightarrow> length r \<le> length q"
      by (simp_all add: bfs_ok_def goal_walk_build)
    have "hop_distance ?g s t = hops r"
      unfolding hop_distance_def
    proof (rule Least_equality)
      show "\<exists>p. directed_path ?g s t p \<and> hops p = hops r" using r(1) by blast
    next
      fix n assume "\<exists>p. directed_path ?g s t p \<and> hops p = n"
      then obtain q where "directed_path ?g s t q" "hops q = n" by blast
      with r(3) show "hops r \<le> n" by (auto simp: hops_def)
    qed
    moreover have "int (hops r) \<le> D" using r(1,2) hops_le directed_path_ne by blast
    ultimately show ?thesis using Some r(1) by simp
  qed
next
  assume st: "s \<noteq> t" and nex: "\<not> (\<exists>p. directed_path (build ops) s t p \<and> int (hops p) \<le> D)"
  let ?g = "build ops"
  from shortest_path_ok [OF st, of ?g D] have ok: "bfs_ok ?g s t D (shortest_path ?g s t D)" .
  show "shortest_path ?g s t D = None"
  proof (cases "shortest_path ?g s t D")
    case None
    then show ?thesis .
  next
    case (Some r)
    with ok have "directed_path ?g s t r" "int (length r) \<le> D + 1"
      by (simp_all add: bfs_ok_def goal_walk_build)
    then have "directed_path ?g s t r \<and> int (hops r) \<le> D"
      using hops_le directed_path_ne by blast
    with nex show ?thesis by blast
  qed
qed

theorem shortest_path_minimal_witness:
  "shortest_path (build ex_ops) ''a'' ''a'' 5 = Some [''a''] \<and>
   (\<exists>p. directed_path (build ex_ops) ''a'' ''c'' p \<and> int (hops p) \<le> 5) \<and>
   shortest_path (build ex_ops) ''a'' ''c'' 5 = Some [''a'', ''c''] \<and>
   hop_distance (build ex_ops) ''a'' ''c'' = 1 \<and>
   \<not> (\<exists>p. directed_path (build ex_ops) ''c'' ''a'' p \<and> int (hops p) \<le> 5) \<and>
   shortest_path (build ex_ops) ''c'' ''a'' 5 = None"
proof -
  note T1 = shortest_path_minimal [of "''a''" "''a''" ex_ops 5]
  note T2 = shortest_path_minimal [of "''a''" "''c''" ex_ops 5]
  note T3 = shortest_path_minimal [of "''c''" "''a''" ex_ops 5]
  have 1: "shortest_path (build ex_ops) ''a'' ''a'' 5 = Some [''a'']" using T1 by simp
  have "directed_path (build ex_ops) ''a'' ''c'' [''a'', ''c''] \<and> int (hops [''a'', ''c'']) \<le> 5"
    by (simp add: directed_path_def links_def relationships_build ex_ops_def ex_rel_def hops_def)
  then have 2: "\<exists>p. directed_path (build ex_ops) ''a'' ''c'' p \<and> int (hops p) \<le> 5" by blast
  have run: "shortest_path (build ex_ops) ''a'' ''c'' 5 = Some [''a'', ''c'']"
    by (simp add: shortest_path_def kg_eval)
  from T2 2 obtain r where "shortest_path (build ex_ops) ''a'' ''c'' 5 = Some r"
    "hops r = hop_distance (build ex_ops) ''a'' ''c''" by auto
  with run have 3: "hop_distance (build ex_ops) ''a'' ''c'' = 1" by (simp add: hops_def)
  have none: "shortest_path (build ex_ops) ''c'' ''a'' 5 = None"
    by (simp add: shortest_path_def kg_eval)
  have 4: "\<not> (\<exists>p. directed_path (build ex_ops) ''c'' ''a'' p \<and> int (hops p) \<le> 5)"
  proof
    assume "\<exists>p. directed_path (build ex_ops) ''c'' ''a'' p \<and> int (hops p) \<le> 5"
    with T3 have "\<exists>r. shortest_path (build ex_ops) ''c'' ''a'' 5 = Some r" by auto
    with none show False by simp
  qed
  from 1 2 run 3 4 none show ?thesis by blast
qed

section \<open>Vector search\<close>




















section \<open>Reciprocal Rank Fusion\<close>


lemma result_ids_simps [simp]:
  "result_ids [] = []" "result_ids (r # rs) = item_id (item r) # result_ids rs"
  by (simp_all add: result_ids_def)














section \<open>Simulated failures\<close>

text \<open>
  C9, as stated, says that each of the four files triggers a failure exactly when a
  sampled random value is below \<open>0.1\<close>. The checkpointing, FSM and guardrails files
  draw no sample; what triggers their failures is an argument. The crash of
  \<open>simulate_step\<close> happens with \<open>fail_at\<close> set to the step, whatever a sample would
  be (say \<open>0.5\<close>, not below \<open>0.1\<close>), and does not happen without \<open>fail_at\<close> (even
  for a sample of \<open>0.05\<close>); \<open>process_document\<close> fails on the content \<open>error\<close>;
  \<open>requires_approval\<close> stops a high-risk operation.
\<close>

theorem failure_without_sample:
  "simulate_step ''validate'' [] (Some ''validate'') = Inl RuntimeError \<and>
   simulate_step ''validate'' [] None = Inr [(''valid'', Bool True), (''errors'', Str_list [])] \<and>
   process_document ''error'' = (False, Some ''Processing failed: invalid content'') \<and>
   process_document ''This is a valid document.'' = (True, None) \<and>
   requires_approval ''delete_customer'' [] =
     (True, Operation_risk ''Permanently deletes customer record'') \<and>
   requires_approval ''search_orders'' [] = (False, No_reason) \<and>
   \<not> (0.5::real) < 0.1 \<and> (0.05::real) < 0.1"
  by (simp add: simulate_step_def process_document_def lower_def lower_char_def
      requires_approval_def high_risk_operations_def dict_get_def)

text \<open>
  C9, amended. Of the four files only the circuit breaker file simulates failures by
  the guard \<open>random.random() < 0.1\<close>: \<open>call_legacy_system\<close> raises
  \<open>ConnectionError\<close> exactly when the sampled value is below \<open>0.1\<close>. In the other
  three the outcome is decided by the arguments: \<open>simulate_step\<close> raises
  \<open>RuntimeError\<close> exactly when \<open>fail_at\<close> is the step, \<open>process_document\<close> fails
  exactly when the lower-cased content contains \<open>error\<close>, and \<open>requires_approval\<close>
  asks for approval exactly for a high-risk operation or an amount above 1000.
\<close>

theorem failure_simulation:
  "(call_legacy_system sample inventory legacy_request = Inl ConnectionError \<longleftrightarrow> sample < 0.1) \<and>
   (simulate_step step data fail_at = Inl RuntimeError \<longleftrightarrow> fail_at = Some step) \<and>
   (\<not> fst (process_document content_text) \<longleftrightarrow> contains (lower content_text) ''error'') \<and>
   (fst (requires_approval operation ctx) \<longleftrightarrow>
      operation \<in> fst ` set high_risk_operations \<or> dict_get ctx ''amount'' 0 > 1000)"
proof (intro conjI)
  show "call_legacy_system sample inventory legacy_request = Inl ConnectionError \<longleftrightarrow> sample < 0.1"
    by (simp add: call_legacy_system_def)
  show "simulate_step step data fail_at = Inl RuntimeError \<longleftrightarrow> fail_at = Some step"
    by (auto simp: simulate_step_def)
  show "\<not> fst (process_document content_text) \<longleftrightarrow> contains (lower content_text) ''error''"
    by (simp add: process_document_def)
  show "fst (requires_approval operation ctx) \<longleftrightarrow>
      operation \<in> fst ` set high_risk_operations \<or> dict_get ctx ''amount'' 0 > 1000"
  proof (cases "map_of high_risk_operations operation")
    case None
    then have "operation \<notin> fst ` set high_risk_operations" by (simp add: map_of_eq_None_iff)
    with None show ?thesis by (simp add: requires_approval_def Let_def)
  next
    case (Some d)
    then have "operation \<in> fst ` set high_risk_operations"
      by (metis map_of_eq_None_iff option.distinct(1))
    with Some show ?thesis by (simp add: requires_approval_def)
  qed
qed

theorem failure_simulation_witness:
  "call_legacy_system 0.05 erp_inventory ''<sku>SKU-002</sku>'' = Inl ConnectionError \<and>
   call_legacy_system 0.5 erp_inventory ''<sku>SKU-002</sku>'' =
     Inr (Inventory_found ''SKU-002'' ''Gadget Plus'' 75 ''WH-B'' ''legacy-erp'') \<and>
   simulate_step ''validate'' [] (Some ''validate'') = Inl RuntimeError \<and>
   \<not> fst (process_document ''Some ERROR here'') \<and>
   fst (requires_approval ''search_orders'' [(''amount'', 5000)])"
proof -
  note T = failure_simulation
  have 1: "call_legacy_system 0.05 erp_inventory ''<sku>SKU-002</sku>'' = Inl ConnectionError"
    using T [where sample = "0.05", THEN conjunct1] by simp
  have 2: "call_legacy_system 0.5 erp_inventory ''<sku>SKU-002</sku>'' =
     Inr (Inventory_found ''SKU-002'' ''Gadget Plus'' 75 ''WH-B'' ''legacy-erp'')"
    by (simp add: call_legacy_system_def erp_inventory_def)
  have 3: "simulate_step ''validate'' [] (Some ''validate'') = Inl RuntimeError"
    using T [where step = "''validate''" and fail_at = "Some ''validate''",
        THEN conjunct2, THEN conjunct1] by simp
  have "contains (lower ''Some ERROR here'') ''error''"
    by (simp add: lower_def lower_char_def)
  then have 4: "\<not> fst (process_document ''Some ERROR here'')"
    using T [where content_text = "''Some ERROR here''",
        THEN conjunct2, THEN conjunct2, THEN conjunct1] by simp
  have "dict_get [(''amount'', 5000)] ''amount'' 0 > (1000::int)" by (simp add: dict_get_def)
  then have 5: "fst (requires_approval ''search_orders'' [(''amount'', 5000)])"
    using T [where operation = "''search_orders''" and ctx = "[(''amount'', 5000)]",
        THEN conjunct2, THEN conjunct2, THEN conjunct2] by simp
  from 1 2 3 4 5 show ?thesis by simp
qed

end
